theory Spec2Isabelle
  imports
    Complex_Main
    "HOL-Library.Log_Nat"
    "HOL-Library.List_Lexorder"
    "HOL-Library.Product_Lexorder"
begin

section \<open>Python values used by \<open>MarkovChainTextPredictor\<close>\<close>

subsection \<open>Strings\<close>

text \<open>
  A Python \<open>str\<close> is a sequence of Unicode code points. Code points are natural
  numbers here, so that the order on strings (lexicographic, by code point) and the
  whitespace class of \<open>str.split\<close> and \<open>str.strip\<close> are the ones of Python 3.
  \<open>S\<close> turns an ASCII literal into such a string.
\<close>

type_synonym pystr = "nat list"

definition S :: "string \<Rightarrow> pystr" where
  "S cs = map of_char cs"

text \<open>
  \<open>str.isspace\<close> for one code point: the characters \<open>str.split()\<close> and
  \<open>str.strip()\<close> treat as whitespace.
\<close>

definition isspace :: "nat \<Rightarrow> bool" where
  "isspace c \<longleftrightarrow>
     (0x09 \<le> c \<and> c \<le> 0x0D) \<or> (0x1C \<le> c \<and> c \<le> 0x1F) \<or> c = 0x20 \<or>
     c = 0x85 \<or> c = 0xA0 \<or> c = 0x1680 \<or> (0x2000 \<le> c \<and> c \<le> 0x200A) \<or>
     c = 0x2028 \<or> c = 0x2029 \<or> c = 0x202F \<or> c = 0x205F \<or> c = 0x3000"

text \<open>
  \<open>s.split()\<close> with no separator: the maximal runs of non-whitespace characters, in
  order. \<open>cur\<close> is the token being read.
\<close>

fun split_from :: "pystr \<Rightarrow> pystr \<Rightarrow> pystr list" where
  "split_from cur [] = (if cur = [] then [] else [cur])"
| "split_from cur (c # cs) =
     (if isspace c
      then (if cur = [] then split_from [] cs else cur # split_from [] cs)
      else split_from (cur @ [c]) cs)"

definition py_split :: "pystr \<Rightarrow> pystr list" where
  "py_split s = split_from [] s"

text \<open>\<open>s.strip()\<close>: leading and trailing whitespace removed.\<close>

definition py_strip :: "pystr \<Rightarrow> pystr" where
  "py_strip s = rev (dropWhile isspace (rev (dropWhile isspace s)))"

subsection \<open>Sequences: indexing, slicing, \<open>range\<close>\<close>

datatype py_error = IndexError | ZeroDivisionError | OverflowError

text \<open>\<open>xs[i]\<close>: a negative index counts from the end, an index out of range raises.\<close>

definition py_getitem :: "'a list \<Rightarrow> int \<Rightarrow> py_error + 'a" where
  "py_getitem xs i =
     (let len = int (length xs); j = (if i < 0 then len + i else i)
      in if 0 \<le> j \<and> j < len then Inr (xs ! nat j) else Inl IndexError)"

text \<open>
  A slice bound as Python normalises it: a negative bound counts from the end, and the
  result is clamped to \<open>0 .. len\<close>.
\<close>

definition slice_bound :: "int \<Rightarrow> int \<Rightarrow> nat" where
  "slice_bound len i = nat (min len (max 0 (if i < 0 then len + i else i)))"

text \<open>\<open>xs[lo:hi]\<close>; \<open>None\<close> is an omitted bound. A slice never raises.\<close>

definition py_slice :: "'a list \<Rightarrow> int option \<Rightarrow> int option \<Rightarrow> 'a list" where
  "py_slice xs lo hi =
     (let len = int (length xs);
          i = (case lo of None \<Rightarrow> 0 | Some l \<Rightarrow> slice_bound len l);
          j = (case hi of None \<Rightarrow> length xs | Some h \<Rightarrow> slice_bound len h)
      in take (j - i) (drop i xs))"

text \<open>\<open>range(m)\<close>: empty when \<open>m \<le> 0\<close>.\<close>

definition py_range :: "int \<Rightarrow> int list" where
  "py_range m = map int [0..<nat m]"

subsection \<open>Dictionaries\<close>

text \<open>
  A \<open>dict\<close> is an association list with distinct keys in insertion order, which is the
  order Python iterates in. \<open>dd_apply d f k m\<close> is \<open>m[k] = f(m[k])\<close> on a
  \<open>defaultdict\<close> whose factory returns \<open>d\<close>: an existing entry is changed in place, a
  missing key is inserted at the end with \<open>f d\<close>. \<open>dict_get\<close> is \<open>m.get(k, d)\<close>, which
  reads only and does not call the factory.
\<close>

type_synonym ('k, 'v) dict = "('k \<times> 'v) list"

fun dd_apply :: "'v \<Rightarrow> ('v \<Rightarrow> 'v) \<Rightarrow> 'k \<Rightarrow> ('k, 'v) dict \<Rightarrow> ('k, 'v) dict" where
  "dd_apply d f k [] = [(k, f d)]"
| "dd_apply d f k ((k', v) # m) =
     (if k' = k then (k', f v) # m else (k', v) # dd_apply d f k m)"

definition dict_get :: "('k, 'v) dict \<Rightarrow> 'k \<Rightarrow> 'v \<Rightarrow> 'v" where
  "dict_get m k d = (case map_of m k of None \<Rightarrow> d | Some v \<Rightarrow> v)"

definition dict_values :: "('k, 'v) dict \<Rightarrow> 'v list" where
  "dict_values m = map snd m"

subsection \<open>Floats\<close>

text \<open>
  A Python \<open>float\<close> is an IEEE 754 binary64 number. A finite one is modelled by its
  exact rational value (the two zeros are one value); every float the predictor computes
  is the correctly rounded result of an exact operation, so it is \<open>round_double\<close> of that
  exact result.

  \<open>binexp q\<close> is the binary exponent of \<open>q > 0\<close>: \<open>2 ^ e \<le> q < 2 ^ (e + 1)\<close>.
  \<open>round_half_even\<close> rounds to the nearest integer, a tie to the even one.
  \<open>round_double\<close> rounds to the nearest number with a 53-bit significand and exponent
  at least \<open>-1022\<close> (subnormals included), a tie to the even significand. Its result is
  the binary64 result whenever that is finite, that is below \<open>dbl_overflow\<close>.
\<close>

definition binexp :: "rat \<Rightarrow> int" where
  "binexp q =
     (let (a, b) = quotient_of q;
          k = bitlen a - bitlen b
      in if 2 powi k \<le> q then k else k - 1)"

definition round_half_even :: "rat \<Rightarrow> int" where
  "round_half_even x =
     (let f = \<lfloor>x\<rfloor>; d = x - of_int f
      in if d < 1 / 2 then f else if 1 / 2 < d then f + 1
         else if even f then f else f + 1)"

definition round_double :: "rat \<Rightarrow> rat" where
  "round_double q =
     (if q = 0 then 0
      else let a = \<bar>q\<bar>;
               e = max (binexp a) (- 1022);
               ulp = 2 powi (e - 52)
           in sgn q * of_int (round_half_even (a / ulp)) * ulp)"

definition dbl_overflow :: rat where
  "dbl_overflow = 2 ^ 1024"

text \<open>
  \<open>a / b\<close> on two \<open>int\<close>s: the correctly rounded quotient; a zero divisor and a
  quotient too large for a float raise.
\<close>

definition py_truediv :: "int \<Rightarrow> int \<Rightarrow> py_error + rat" where
  "py_truediv a b =
     (if b = 0 then Inl ZeroDivisionError
      else let q = round_double (of_int a / of_int b)
           in if dbl_overflow \<le> \<bar>q\<bar> then Inl OverflowError else Inr q)"

text \<open>
  \<open>x * y\<close>, \<open>x + y\<close> and \<open>x / y\<close> on floats (an \<open>int\<close> operand is converted first,
  exactly for the small values used here). Division by zero raises. A result at or
  beyond \<open>dbl_overflow\<close> would be an infinity in Python, which has no rational value:
  lemma \<open>f1_of_range\<close> below shows that the predictor never gets there.
\<close>

definition fl_mul :: "rat \<Rightarrow> rat \<Rightarrow> rat" where
  "fl_mul x y = round_double (x * y)"

definition fl_add :: "rat \<Rightarrow> rat \<Rightarrow> rat" where
  "fl_add x y = round_double (x + y)"

definition fl_div :: "rat \<Rightarrow> rat \<Rightarrow> py_error + rat" where
  "fl_div x y = (if y = 0 then Inl ZeroDivisionError else Inr (round_double (x / y)))"

text \<open>
  \<open>f"{x:.kf}"\<close>: the decimal expansion of \<open>x\<close> with \<open>k\<close> digits after the point,
  correctly rounded from the exact value of the float, a tie to the even digit.
\<close>

fun digits :: "nat \<Rightarrow> pystr" where
  "digits n = (if n < 10 then [0x30 + n] else digits (n div 10) @ [0x30 + n mod 10])"

declare digits.simps [simp del]

definition fmt_fixed :: "nat \<Rightarrow> rat \<Rightarrow> pystr" where
  "fmt_fixed k x =
     (let m = nat (round_half_even (\<bar>x\<bar> * 10 ^ k));
          frac = digits (m mod 10 ^ k)
      in (if x < 0 then S ''-'' else []) @ digits (m div 10 ^ k) @
         (if k = 0 then [] else S ''.'' @ replicate (k - length frac) 0x30 @ frac))"

section \<open>The predictor\<close>

text \<open>
  The attributes of a \<open>MarkovChainTextPredictor\<close>. \<open>model\<close> is the
  \<open>defaultdict(list)\<close> from a context (a tuple of tokens) to its followers.
  \<open>training_time\<close> and \<open>f1_score\<close> hold floats (or the \<open>int\<close> 0, the same value).
\<close>

record predictor =
  model :: "(pystr list, pystr list) dict"
  trained :: bool
  training_time :: rat
  vocab_size :: int
  unique_transitions :: int
  total_transitions :: int
  f1_score :: rat
  file_size :: int
  file_name :: pystr

text \<open>\<open>__init__\<close>\<close>

definition init :: predictor where
  "init = \<lparr> model = [], trained = False, training_time = 0, vocab_size = 0,
            unique_transitions = 0, total_transitions = 0, f1_score = 0,
            file_size = 0, file_name = [] \<rparr>"

subsection \<open>\<open>train\<close>\<close>

text \<open>
  The loop of \<open>train\<close> over the values of \<open>i\<close> still to come, on the pair of
  \<open>self.model\<close> and the local \<open>transition_counts\<close>:
  \<^verbatim>\<open>
    key = tuple(tokens[i:i + n - 1])
    next_word = tokens[i + n - 1]
    self.model[key].append(next_word)
    transition_counts[(key, next_word)] += 1
  \<close>
\<close>

type_synonym index = "(pystr list, pystr list) dict"
type_synonym counts = "(pystr list \<times> pystr, int) dict"

fun train_loop :: "pystr list \<Rightarrow> int \<Rightarrow> int list \<Rightarrow> index \<times> counts \<Rightarrow> py_error + index \<times> counts" where
  "train_loop tokens n [] mc = Inr mc"
| "train_loop tokens n (i # is) mc =
     (let key = py_slice tokens (Some i) (Some (i + n - 1)) in
      case py_getitem tokens (i + n - 1) of
        Inl e \<Rightarrow> Inl e
      | Inr next_word \<Rightarrow>
          train_loop tokens n is
            (dd_apply [] (\<lambda>l. l @ [next_word]) key (fst mc),
             dd_apply 0 (\<lambda>c. c + 1) (key, next_word) (snd mc)))"

text \<open>
  The index and the transition counts that \<open>train\<close> builds for a corpus:
  \<open>self.model.clear()\<close> and a fresh \<open>transition_counts\<close>, then the loop over
  \<open>range(len(tokens) - n + 1)\<close>.
\<close>

definition build :: "pystr list \<Rightarrow> int \<Rightarrow> py_error + index \<times> counts" where
  "build tokens n = train_loop tokens n (py_range (int (length tokens) - n + 1)) ([], [])"

text \<open>
  The "F1 score approximation" of \<open>train\<close>, from \<open>correct\<close>, \<open>unique_transitions\<close> and
  \<open>total_transitions\<close>:
  \<^verbatim>\<open>
    precision = correct / self.unique_transitions if self.unique_transitions else 0
    recall = correct / self.total_transitions if self.total_transitions else 0
    self.f1_score = 2 * (precision * recall) / (precision + recall) if (precision + recall) else 0
  \<close>
\<close>

definition precision_of :: "int \<Rightarrow> int \<Rightarrow> py_error + rat" where
  "precision_of correct n_unique = (if n_unique \<noteq> 0 then py_truediv correct n_unique else Inr 0)"

definition recall_of :: "int \<Rightarrow> int \<Rightarrow> py_error + rat" where
  "recall_of correct n_total = (if n_total \<noteq> 0 then py_truediv correct n_total else Inr 0)"

definition harmonic :: "rat \<Rightarrow> rat \<Rightarrow> py_error + rat" where
  "harmonic precision recall =
     (if fl_add precision recall \<noteq> 0
      then fl_div (fl_mul 2 (fl_mul precision recall)) (fl_add precision recall)
      else Inr 0)"

definition f1_of :: "int \<Rightarrow> int \<Rightarrow> int \<Rightarrow> py_error + rat" where
  "f1_of correct n_unique n_total =
     (case precision_of correct n_unique of
        Inl e \<Rightarrow> Inl e
      | Inr precision \<Rightarrow>
          (case recall_of correct n_total of
             Inl e \<Rightarrow> Inl e
           | Inr recall \<Rightarrow> harmonic precision recall))"

text \<open>
  \<open>train(corpus, n)\<close>. \<open>elapsed\<close> is what \<open>time.time() - start_time\<close> evaluates to at
  the end of the call. An exception is \<open>Inl\<close>; the attributes written before it are
  not tracked.
\<close>

definition train :: "pystr \<Rightarrow> int \<Rightarrow> rat \<Rightarrow> predictor \<Rightarrow> py_error + predictor" where
  "train corpus n elapsed self =
     (let tokens = py_split corpus in
      case build tokens n of
        Inl e \<Rightarrow> Inl e
      | Inr (m, transition_counts) \<Rightarrow>
          (let n_unique = int (length transition_counts);
               n_total = sum_list (dict_values transition_counts);
               correct = int (length (filter (\<lambda>c. c > 1) (dict_values transition_counts)))
           in case f1_of correct n_unique n_total of
                Inl e \<Rightarrow> Inl e
              | Inr f1 \<Rightarrow>
                  Inr (self\<lparr> model := m,
                            vocab_size := int (card (set tokens)),
                            unique_transitions := n_unique,
                            total_transitions := n_total,
                            f1_score := f1,
                            training_time := elapsed,
                            trained := True \<rparr>)))"

subsection \<open>\<open>predict_next\<close>\<close>

text \<open>The two messages \<open>predict_next\<close> returns in place of predictions.\<close>

definition not_trained_msg :: pystr where
  "not_trained_msg = [0x26A0, 0xFE0F] @ S '' Please load training data first''"

definition no_predictions_msg :: pystr where
  "no_predictions_msg = [0x1F916] @ S '' No predictions available''"

text \<open>
  \<open>predict_next(text, top_k)\<close>, with the object after the call as second component.
  \<open>freq\<close> is a local \<open>defaultdict(int)\<close>; \<open>sorted\<close> is stable, as \<open>sort_key\<close> is, and
  compares the keys \<open>(-count, word)\<close> as tuples.
\<close>

definition predict_next :: "pystr \<Rightarrow> int \<Rightarrow> predictor \<Rightarrow> pystr list \<times> predictor" where
  "predict_next text top_k self =
     (if \<not> trained self then ([not_trained_msg], self)
      else let words = py_split (py_strip text) in
        if words = [] then ([], self)
        else let key = py_slice words (Some (- 1)) None;
                 candidates = dict_get (model self) key []
             in if candidates = [] then ([no_predictions_msg], self)
                else let freq = fold (dd_apply (0::int) (\<lambda>c. c + 1)) candidates [];
                         sorted_words = sort_key (\<lambda>x. (- snd x, fst x)) freq
                     in (map fst (py_slice sorted_words None (Some top_k)), self))"

subsection \<open>\<open>get_stats\<close>\<close>

datatype pyval = PyStr pystr | PyInt int

text \<open>
  \<open>get_stats()\<close>: the dictionary it returns, or the exception of one of its two
  divisions.
\<close>

definition compression_ratio :: "predictor \<Rightarrow> py_error + pystr" where
  "compression_ratio self =
     (if unique_transitions self \<noteq> 0
      then (case py_truediv (vocab_size self) (unique_transitions self) of
              Inl e \<Rightarrow> Inl e
            | Inr r \<Rightarrow> Inr (fmt_fixed 1 r @ S ''x''))
      else Inr (S ''N/A''))"

definition get_stats :: "predictor \<Rightarrow> py_error + (pystr, pyval) dict" where
  "get_stats self =
     (case py_truediv (file_size self) 1024 of
        Inl e \<Rightarrow> Inl e
      | Inr kb \<Rightarrow>
          (case compression_ratio self of
             Inl e \<Rightarrow> Inl e
           | Inr cr \<Rightarrow>
               Inr [(S ''file_name'', PyStr (file_name self)),
                    (S ''file_size'', PyStr (fmt_fixed 1 kb @ S '' KB'')),
                    (S ''training_time'', PyStr (fmt_fixed 2 (training_time self) @ S '' seconds'')),
                    (S ''vocab_size'', PyInt (vocab_size self)),
                    (S ''unique_transitions'', PyInt (unique_transitions self)),
                    (S ''total_transitions'', PyInt (total_transitions self)),
                    (S ''f1_score'', PyStr (fmt_fixed 3 (f1_score self))),
                    (S ''compression_ratio'', PyStr cr)]))"

section \<open>Notions used to state the properties\<close>

text \<open>
  The transitions of a token sequence for order \<open>n\<close>, in corpus order: for every window
  of \<open>n\<close> consecutive tokens, the context (its first \<open>n - 1\<close> tokens) and the follower
  (its last token).
\<close>

definition transitions :: "'a list \<Rightarrow> nat \<Rightarrow> ('a list \<times> 'a) list" where
  "transitions tokens n =
     map (\<lambda>i. (take (n - 1) (drop i tokens), tokens ! (i + n - 1))) [0..<length tokens + 1 - n]"

text \<open>
  The number of distinct (context, follower) pairs that occur more than once.
\<close>

definition repeated_transitions :: "'a list \<Rightarrow> nat \<Rightarrow> nat" where
  "repeated_transitions tokens n =
     card {p \<in> set (transitions tokens n). 1 < count_list (transitions tokens n) p}"

text \<open>
  The harmonic mean \<open>2 * p * r / (p + r)\<close> of two floats with \<open>p + r \<noteq> 0\<close>, each
  operation rounded to a float, in the order Python evaluates
  \<open>2 * (p * r) / (p + r)\<close>.
\<close>

definition harmonic_mean :: "rat \<Rightarrow> rat \<Rightarrow> rat" where
  "harmonic_mean p r =
     round_double (round_double (2 * round_double (p * r)) / round_double (p + r))"

text \<open>One iteration of the loop of \<open>train\<close>, for the transition \<open>p\<close>.\<close>

definition record_transition :: "pystr list \<times> pystr \<Rightarrow> index \<times> counts \<Rightarrow> index \<times> counts" where
  "record_transition p mc =
     (dd_apply [] (\<lambda>l. l @ [snd p]) (fst p) (fst mc), dd_apply 0 (\<lambda>c. c + 1) p (snd mc))"

text \<open>Counting into a fresh \<open>defaultdict(int)\<close>, one increment per element.\<close>

definition tally :: "'a list \<Rightarrow> ('a, int) dict" where
  "tally xs = fold (dd_apply 0 (\<lambda>c. c + 1)) xs []"

text \<open>
  The spacing of the floats around \<open>q > 0\<close>, and the rationals that are floats (with
  no upper bound on the exponent): a significand below \<open>2 ^ 53\<close> and an exponent of at
  least \<open>-1074\<close>.
\<close>

definition ulp_of :: "rat \<Rightarrow> rat" where
  "ulp_of q = 2 powi (max (binexp q) (- 1022) - 52)"

definition is_double :: "rat \<Rightarrow> bool" where
  "is_double d \<longleftrightarrow> (\<exists>m e. d = of_int m * 2 powi e \<and> \<bar>m\<bar> < 2 ^ 53 \<and> - 1074 \<le> e)"

section \<open>The loop of \<open>train\<close>\<close>

lemma py_getitem_in_range:
  "0 \<le> i \<Longrightarrow> i < int (length xs) \<Longrightarrow> py_getitem xs i = Inr (xs ! nat i)"
  by (simp add: py_getitem_def)

lemma py_slice_in_range:
  "0 \<le> i \<Longrightarrow> i \<le> j \<Longrightarrow> j \<le> int (length xs) \<Longrightarrow>
   py_slice xs (Some i) (Some j) = take (nat j - nat i) (drop (nat i) xs)"
  by (auto simp: py_slice_def slice_bound_def min_def max_def Let_def)

lemma train_loop_transitions:
  assumes "1 \<le> n" and "\<forall>i\<in>set js. int i + n \<le> int (length tokens)"
  shows "train_loop tokens n (map int js) mc =
           Inr (fold record_transition
                  (map (\<lambda>i. (take (nat n - 1) (drop i tokens), tokens ! (i + nat n - 1))) js) mc)"
  using assms(2)
proof (induction js arbitrary: mc)
  case Nil
  show ?case by simp
next
  case (Cons j js)
  from Cons.prems have j: "int j + n \<le> int (length tokens)" by simp
  with assms(1) have g: "py_getitem tokens (int j + n - 1) = Inr (tokens ! (j + nat n - 1))"
    by (simp add: py_getitem_in_range nat_add_distrib nat_diff_distrib)
  from j assms(1) have s: "py_slice tokens (Some (int j)) (Some (int j + n - 1)) =
      take (nat n - 1) (drop j tokens)"
    by (simp add: py_slice_in_range nat_add_distrib nat_diff_distrib)
  from Cons.prems have "\<forall>i\<in>set js. int i + n \<le> int (length tokens)" by simp
  from Cons.IH [OF this] show ?case
    by (simp add: g s record_transition_def Let_def)
qed

lemma build_transitions:
  assumes "1 \<le> n"
  shows "build tokens n = Inr (fold record_transition (transitions tokens (nat n)) ([], []))"
proof -
  have eq: "nat (int (length tokens) - n + 1) = length tokens + 1 - nat n"
    using assms by linarith
  have "\<forall>i\<in>set [0..<length tokens + 1 - nat n]. int i + n \<le> int (length tokens)"
    using assms by auto
  from train_loop_transitions [OF assms this]
  show ?thesis by (simp add: build_def py_range_def transitions_def eq)
qed

lemma length_transitions: "length (transitions tokens n) = length tokens + 1 - n"
  by (simp add: transitions_def)

lemma snd_fold_record:
  "snd (fold record_transition ps mc) = fold (dd_apply 0 (\<lambda>c. c + 1)) ps (snd mc)"
  by (induction ps arbitrary: mc) (simp_all add: record_transition_def)

lemma counts_tally: "snd (fold record_transition ps ([], [])) = tally ps"
  by (simp add: snd_fold_record tally_def)

lemma tally_snoc: "tally (xs @ [x]) = dd_apply 0 (\<lambda>c. c + 1) x (tally xs)"
  by (simp add: tally_def)

lemma dd_apply_keys_in: "k \<in> fst ` set m \<Longrightarrow> map fst (dd_apply d f k m) = map fst m"
  by (induction m) (auto simp: rev_image_eqI)

lemma dd_apply_keys_out: "k \<notin> fst ` set m \<Longrightarrow> map fst (dd_apply d f k m) = map fst m @ [k]"
  by (induction m) auto

lemma dd_apply_keys:
  "map fst (dd_apply d f k m) = (if k \<in> fst ` set m then map fst m else map fst m @ [k])"
  by (simp add: dd_apply_keys_in dd_apply_keys_out)

lemma dd_apply_sum:
  "sum_list (map snd (dd_apply (0::int) (\<lambda>c. c + 1) k m)) = sum_list (map snd m) + 1"
  by (induction m) auto

lemma dd_apply_set:
  "distinct (map fst m) \<Longrightarrow>
   set (dd_apply d f k m) =
     (case map_of m k of None \<Rightarrow> insert (k, f d) (set m)
      | Some v \<Rightarrow> insert (k, f v) (set m - {(k, v)}))"
proof (induction m)
  case Nil
  show ?case by simp
next
  case (Cons p m)
  obtain k' v' where p: "p = (k', v')" by (cases p)
  show ?case
  proof (cases "k' = k")
    case True
    with Cons.prems p have "(k, v') \<notin> set m" by (auto simp: image_iff)
    with True p show ?thesis by auto
  next
    case False
    with Cons p show ?thesis
      by (auto split: option.splits simp: image_iff dest: map_of_SomeD)
  qed
qed

lemma tally_sum: "sum_list (map snd (tally xs)) = int (length xs)"
  by (induction xs rule: rev_induct) (simp_all add: tally_snoc dd_apply_sum, simp add: tally_def)

lemma tally_keys: "distinct (map fst (tally xs)) \<and> set (map fst (tally xs)) = set xs"
proof (induction xs rule: rev_induct)
  case Nil
  show ?case by (simp add: tally_def)
next
  case (snoc x xs)
  then show ?case by (auto simp: tally_snoc dd_apply_keys)
qed

lemma tally_set: "set (tally xs) = (\<lambda>x. (x, int (count_list xs x))) ` set xs"
proof (induction xs rule: rev_induct)
  case Nil
  show ?case by (simp add: tally_def)
next
  case (snoc x xs)
  have d: "distinct (map fst (tally xs))" using tally_keys by blast
  show ?case
  proof (cases "x \<in> set xs")
    case True
    then have "(x, int (count_list xs x)) \<in> set (tally xs)" by (simp add: snoc.IH)
    with d have m: "map_of (tally xs) x = Some (int (count_list xs x))" by simp
    show ?thesis
      unfolding tally_snoc dd_apply_set [OF d] m using True
      by (auto simp: snoc.IH image_iff)
  next
    case False
    then have "x \<notin> fst ` set (tally xs)" using tally_keys [of xs] by (metis set_map)
    then have m: "map_of (tally xs) x = None" by (simp add: map_of_eq_None_iff)
    show ?thesis
      unfolding tally_snoc dd_apply_set [OF d] m using False
      by (auto simp: snoc.IH image_iff)
  qed
qed

lemma tally_length: "length (tally xs) = card (set xs)"
proof -
  have "length (tally xs) = length (map fst (tally xs))" by simp
  also have "\<dots> = card (set (map fst (tally xs)))"
    using tally_keys [of xs] by (metis distinct_card)
  finally show ?thesis using tally_keys [of xs] by simp
qed

lemma tally_filter:
  "length (filter P (map snd (tally xs))) = card {x \<in> set xs. P (int (count_list xs x))}"
proof -
  have dt: "distinct (tally xs)" using tally_keys [of xs] by (metis distinct_map)
  have "length (filter P (map snd (tally xs))) = length (filter (P \<circ> snd) (tally xs))"
    by (simp add: filter_map)
  also have "\<dots> = card (set (filter (P \<circ> snd) (tally xs)))"
    using dt by (simp only: distinct_card [OF distinct_filter])
  also have "set (filter (P \<circ> snd) (tally xs)) =
      (\<lambda>x. (x, int (count_list xs x))) ` {x \<in> set xs. P (int (count_list xs x))}"
    by (auto simp: tally_set)
  also have "card \<dots> = card {x \<in> set xs. P (int (count_list xs x))}"
    by (rule card_image) (simp add: inj_on_def)
  finally show ?thesis .
qed

lemma tally_map_of:
  "map_of (tally xs) x = (if x \<in> set xs then Some (int (count_list xs x)) else None)"
proof (cases "x \<in> set xs")
  case True
  then have "(x, int (count_list xs x)) \<in> set (tally xs)" by (simp add: tally_set)
  with tally_keys [of xs] True show ?thesis by simp
next
  case False
  then have "x \<notin> fst ` set (tally xs)" using tally_keys [of xs] by (metis set_map)
  with False show ?thesis by (simp add: map_of_eq_None_iff)
qed


section \<open>Rounding to a float\<close>

lemma quotient_of_pos:
  assumes "0 < q" and "quotient_of q = (a, b)"
  shows "0 < a" and "0 < b" and "q = of_int a / of_int b"
proof -
  show b: "0 < b" using assms(2) by (rule quotient_of_denom_pos)
  show q: "q = of_int a / of_int b" using assms(2) by (rule quotient_of_div)
  show "0 < a" using assms(1) b q by (simp add: zero_less_divide_iff)
qed

lemma bitlen_powi_bounds:
  assumes "0 < a"
  shows "(2::rat) powi (bitlen a - 1) \<le> of_int a" and "of_int a < (2::rat) powi (bitlen a)"
proof -
  from bitlen_bounds [OF assms]
  have l: "2 ^ nat (bitlen a - 1) \<le> a" and u: "a < 2 ^ nat (bitlen a)" by simp_all
  have pos: "1 \<le> bitlen a" using assms bitlen_eq_zero_iff [of a] bitlen_nonneg [of a] by linarith
  have "(2::rat) powi (bitlen a - 1) = 2 ^ nat (bitlen a - 1)"
    using pos by (simp add: power_int_def)
  also have "\<dots> = of_int (2 ^ nat (bitlen a - 1))" by simp
  also have "\<dots> \<le> of_int a" using l by (simp only: of_int_le_iff)
  finally show "(2::rat) powi (bitlen a - 1) \<le> of_int a" .
  have "(of_int a :: rat) < of_int (2 ^ nat (bitlen a))" using u by (simp only: of_int_less_iff)
  also have "\<dots> = 2 powi (bitlen a)" using pos by (simp add: power_int_def)
  finally show "of_int a < (2::rat) powi (bitlen a)" .
qed

lemma binexp_bounds:
  assumes "0 < q"
  shows "2 powi (binexp q) \<le> q" and "q < 2 powi (binexp q + 1)"
proof -
  obtain a b where ab: "quotient_of q = (a, b)" by (cases "quotient_of q")
  note p = quotient_of_pos [OF assms ab]
  define k where "k = bitlen a - bitlen b"
  have be: "binexp q = (if 2 powi k \<le> q then k else k - 1)"
    by (simp add: binexp_def ab k_def)
  note ba = bitlen_powi_bounds [OF p(1)] and bb = bitlen_powi_bounds [OF p(2)]
  have bpos: "(0::rat) < of_int b" using p(2) by simp
  have "q < 2 powi (bitlen a) / 2 powi (bitlen b - 1)"
    unfolding p(3) using ba(2) bb(1) p(1)
    by (intro frac_less) auto
  also have "\<dots> = 2 powi (k + 1)"
    by (simp add: k_def power_int_diff [symmetric] algebra_simps)
  finally have up: "q < 2 powi (k + 1)" .
  have "(2::rat) powi (k - 1) = 2 powi (bitlen a - 1) / 2 powi (bitlen b)"
    by (simp add: k_def power_int_diff [symmetric] algebra_simps)
  also have "\<dots> < q"
    unfolding p(3) using ba(1) bb(2) bpos p(1)
    by (intro frac_less2) auto
  finally have lo: "2 powi (k - 1) < q" .
  show "2 powi (binexp q) \<le> q" using lo by (auto simp: be)
  show "q < 2 powi (binexp q + 1)" using up by (auto simp: be not_le)
qed

lemma round_half_even_ge: "of_int k \<le> x \<Longrightarrow> k \<le> round_half_even x"
proof -
  assume "of_int k \<le> x"
  then have "k \<le> \<lfloor>x\<rfloor>" by (simp add: le_floor_iff)
  then show ?thesis by (auto simp: round_half_even_def Let_def)
qed

lemma round_half_even_le: "x \<le> of_int k \<Longrightarrow> round_half_even x \<le> k"
proof -
  assume a: "x \<le> of_int k"
  have f: "\<lfloor>x\<rfloor> \<le> k" using floor_mono [OF a] by simp
  show ?thesis
  proof (cases "\<lfloor>x\<rfloor> = k")
    case True
    with a have "x = of_int k" using of_int_floor_le [of x] by simp
    then show ?thesis by (simp add: round_half_even_def)
  next
    case False
    with f have "\<lfloor>x\<rfloor> + 1 \<le> k" by simp
    then show ?thesis using f by (auto simp: round_half_even_def Let_def)
  qed
qed

lemma ulp_of_pos: "0 < ulp_of q"
  by (simp add: ulp_of_def)

lemma round_double_pos:
  "0 < q \<Longrightarrow> round_double q = of_int (round_half_even (q / ulp_of q)) * ulp_of q"
  by (simp add: round_double_def ulp_of_def Let_def)

lemma round_double_zero: "round_double 0 = 0"
  by (simp add: round_double_def)

lemma round_double_ge_multiple:
  assumes "0 < q" and "of_int k * ulp_of q \<le> q"
  shows "of_int k * ulp_of q \<le> round_double q"
proof -
  have "of_int k \<le> q / ulp_of q"
    using assms(2) ulp_of_pos [of q] by (simp add: pos_le_divide_eq)
  then have "k \<le> round_half_even (q / ulp_of q)" by (rule round_half_even_ge)
  then have "(of_int k :: rat) \<le> of_int (round_half_even (q / ulp_of q))"
    by (simp only: of_int_le_iff)
  then show ?thesis
    using ulp_of_pos [of q] by (simp add: round_double_pos [OF assms(1)])
qed

lemma round_double_le_multiple:
  assumes "0 < q" and "q \<le> of_int k * ulp_of q"
  shows "round_double q \<le> of_int k * ulp_of q"
proof -
  have "q / ulp_of q \<le> of_int k"
    using assms(2) ulp_of_pos [of q] by (simp add: pos_divide_le_eq)
  then have "round_half_even (q / ulp_of q) \<le> k" by (rule round_half_even_le)
  then have "(of_int (round_half_even (q / ulp_of q)) :: rat) \<le> of_int k"
    by (simp only: of_int_le_iff)
  then show ?thesis
    using ulp_of_pos [of q] by (simp add: round_double_pos [OF assms(1)])
qed

lemma round_double_nonneg: "0 \<le> q \<Longrightarrow> 0 \<le> round_double q"
proof (cases "q = 0")
  case True
  then show ?thesis by (simp add: round_double_zero)
next
  case False
  assume "0 \<le> q"
  with False have q: "0 < q" by simp
  from round_double_ge_multiple [OF q, of 0] q show ?thesis by simp
qed

lemma powi_less_imp_less: "(2::rat) powi a < 2 powi b \<Longrightarrow> a < b"
  using power_int_increasing [of b a "2::rat"] by (cases "a < b") auto

lemma powi_split: "j \<le> e \<Longrightarrow> (2::rat) powi e = of_int (2 ^ nat (e - j)) * 2 powi j"
proof -
  assume je: "j \<le> e"
  have p: "(2::rat) powi (e - j) = of_int (2 ^ nat (e - j))"
    using je by (simp add: power_int_nonneg_exp)
  have "(2::rat) powi e = 2 powi ((e - j) + j)" by simp
  also have "\<dots> = 2 powi (e - j) * 2 powi j" by (rule power_int_add) simp
  finally show ?thesis by (simp only: p)
qed

lemma double_multiple:
  assumes "is_double d" and "0 < d" and "- 1074 \<le> j"
    and "j = - 1074 \<or> 2 powi (j + 52) \<le> d"
  shows "\<exists>k. d = of_int k * 2 powi j"
proof -
  from assms(1) obtain m e where d: "d = of_int m * 2 powi e" and m: "\<bar>m\<bar> < 2 ^ 53"
    and e: "- 1074 \<le> e" unfolding is_double_def by blast
  have je: "j \<le> e"
  proof (cases "j = - 1074")
    case True
    with e show ?thesis by simp
  next
    case False
    with assms(4) have "2 powi (j + 52) \<le> d" by simp
    also have "d < 2 ^ 53 * 2 powi e"
    proof -
      have "(of_int m :: rat) < of_int (2 ^ 53)" using m by simp
      then show ?thesis unfolding d by (simp add: mult_strict_right_mono)
    qed
    also have "\<dots> = 2 powi (e + 53)"
      by (simp add: power_int_add)
    finally have "j + 52 < e + 53" by (rule powi_less_imp_less)
    then show ?thesis by simp
  qed
  have "d = of_int (m * 2 ^ nat (e - j)) * 2 powi j"
    unfolding d by (subst powi_split [OF je]) simp
  then show ?thesis by blast
qed

lemma ulp_of_exp:
  "ulp_of q = 2 powi (binexp q - 52) \<and> - 1022 \<le> binexp q \<or>
   ulp_of q = 2 powi (- 1074) \<and> binexp q < - 1022"
  by (auto simp: ulp_of_def max_def)

lemma powi_binexp_multiple:
  assumes "- 1022 \<le> binexp q"
  shows "2 powi (binexp q) = of_int (2 ^ 52) * ulp_of q"
proof -
  have u: "ulp_of q = 2 powi (binexp q - 52)" using assms by (simp add: ulp_of_def max_def)
  have "(2::rat) powi (binexp q) = 2 powi (52 + (binexp q - 52))" by simp
  also have "\<dots> = 2 powi 52 * 2 powi (binexp q - 52)" by (rule power_int_add) simp
  finally show ?thesis by (simp add: u)
qed

lemma round_double_ge_double:
  assumes "is_double d" and "0 < d" and "d \<le> q"
  shows "d \<le> round_double q"
proof -
  have q: "0 < q" using assms by simp
  from ulp_of_exp [of q] show ?thesis
  proof
    assume a: "ulp_of q = 2 powi (binexp q - 52) \<and> - 1022 \<le> binexp q"
    show ?thesis
    proof (cases "2 powi (binexp q) \<le> d")
      case True
      with a have "\<exists>k. d = of_int k * 2 powi (binexp q - 52)"
        by (intro double_multiple [OF assms(1,2)]) auto
      then obtain k where "d = of_int k * ulp_of q" using a by auto
      with round_double_ge_multiple [OF q, of k] assms(3) show ?thesis by simp
    next
      case False
      from a have eq: "2 powi (binexp q) = of_int (2 ^ 52) * ulp_of q"
        by (intro powi_binexp_multiple) simp
      have "of_int (2 ^ 52) * ulp_of q \<le> q"
        using binexp_bounds(1) [OF q] by (simp only: eq)
      from round_double_ge_multiple [OF q this]
      have "2 powi (binexp q) \<le> round_double q" by (simp only: eq)
      with False show ?thesis by simp
    qed
  next
    assume a: "ulp_of q = 2 powi (- 1074) \<and> binexp q < - 1022"
    have "\<exists>k. d = of_int k * 2 powi (- 1074)"
      by (intro double_multiple [OF assms(1,2)]) auto
    then obtain k where "d = of_int k * ulp_of q" using a by auto
    with round_double_ge_multiple [OF q, of k] assms(3) show ?thesis by simp
  qed
qed

lemma round_double_le_double:
  assumes "is_double d" and "0 < q" and "q \<le> d"
  shows "round_double q \<le> d"
proof -
  have d: "0 < d" using assms by simp
  from ulp_of_exp [of q] show ?thesis
  proof
    assume a: "ulp_of q = 2 powi (binexp q - 52) \<and> - 1022 \<le> binexp q"
    have "2 powi (binexp q) \<le> d" using binexp_bounds(1) [OF assms(2)] assms(3) by simp
    with a have "\<exists>k. d = of_int k * 2 powi (binexp q - 52)"
      by (intro double_multiple [OF assms(1) d]) auto
    then obtain k where "d = of_int k * ulp_of q" using a by auto
    with round_double_le_multiple [OF assms(2), of k] assms(3) show ?thesis by simp
  next
    assume a: "ulp_of q = 2 powi (- 1074) \<and> binexp q < - 1022"
    have "\<exists>k. d = of_int k * 2 powi (- 1074)"
      by (intro double_multiple [OF assms(1) d]) auto
    then obtain k where "d = of_int k * ulp_of q" using a by auto
    with round_double_le_multiple [OF assms(2), of k] assms(3) show ?thesis by simp
  qed
qed

lemma powi_shift: "(2::rat) powi (a + b) = 2 powi a * 2 powi b"
  by (rule power_int_add) simp

lemma is_double_0: "is_double 0"
  unfolding is_double_def by (intro exI [of _ 0]) simp

lemma is_double_1: "is_double 1"
  unfolding is_double_def by (intro exI [of _ 1] exI [of _ 0]) simp

lemma is_double_2: "is_double 2"
  unfolding is_double_def by (intro exI [of _ 2] exI [of _ 0]) simp

lemma is_double_twice: "is_double d \<Longrightarrow> is_double (2 * d)"
proof -
  assume "is_double d"
  then obtain m e where d: "d = of_int m * 2 powi e" and m: "\<bar>m\<bar> < 2 ^ 53"
    and e: "- 1074 \<le> e" unfolding is_double_def by blast
  have "(2::rat) powi (e + 1) = 2 powi e * 2" by (simp add: power_int_add)
  then have "2 * d = of_int m * 2 powi (e + 1)" by (simp add: d)
  with m e show ?thesis unfolding is_double_def by (intro exI [of _ m] exI [of _ "e + 1"]) simp
qed

lemma is_double_round:
  assumes "0 \<le> q"
  shows "is_double (round_double q)"
proof (cases "q = 0")
  case True
  then show ?thesis by (simp add: round_double_zero is_double_0)
next
  case False
  with assms have q: "0 < q" by simp
  define E where "E = max (binexp q) (- 1022)"
  define m where "m = round_half_even (q / ulp_of q)"
  have u: "ulp_of q = 2 powi (E - 52)" by (simp add: ulp_of_def E_def)
  have r: "round_double q = of_int m * 2 powi (E - 52)"
    by (simp add: round_double_pos [OF q] m_def u)
  have E: "- 1022 \<le> E" and bE: "binexp q + 1 \<le> E + 1" by (simp_all add: E_def)
  have "q < 2 powi (binexp q + 1)" by (rule binexp_bounds(2) [OF q])
  also have "\<dots> \<le> 2 powi (E + 1)" using bE by (intro power_int_increasing) simp_all
  also have "\<dots> = 2 powi (53 + (E - 52))" by (rule arg_cong [where f = "power_int 2"]) simp
  also have "\<dots> = 2 powi 53 * 2 powi (E - 52)" by (rule powi_shift)
  finally have lt: "q < 2 powi 53 * 2 powi (E - 52)" .
  have c53: "(of_int (2 ^ 53) :: rat) = 2 powi 53" and c52: "(of_int (2 ^ 52) :: rat) = 2 powi 52"
    by simp_all
  have "q \<le> of_int (2 ^ 53) * ulp_of q"
    unfolding u c53 using lt by (rule less_imp_le)
  then have "q / ulp_of q \<le> of_int (2 ^ 53)"
    using ulp_of_pos [of q] by (simp add: pos_divide_le_eq)
  then have hi: "m \<le> 2 ^ 53" unfolding m_def by (rule round_half_even_le)
  have "of_int 0 \<le> q / ulp_of q" using q ulp_of_pos [of q] by simp
  then have lo: "0 \<le> m" unfolding m_def by (rule round_half_even_ge)
  show ?thesis
  proof (cases "m = 2 ^ 53")
    case True
    have "(2::rat) powi 53 * 2 powi (E - 52) = 2 powi (53 + (E - 52))"
      by (rule powi_shift [symmetric])
    also have "\<dots> = 2 powi (52 + (E - 51))"
      by (rule arg_cong [where f = "power_int 2"]) simp
    also have "\<dots> = 2 powi 52 * 2 powi (E - 51)" by (rule powi_shift)
    finally have sh: "(2::rat) powi 53 * 2 powi (E - 52) = 2 powi 52 * 2 powi (E - 51)" .
    have "round_double q = of_int (2 ^ 53) * 2 powi (E - 52)" by (simp only: r True)
    also have "\<dots> = 2 powi 53 * 2 powi (E - 52)" by (simp only: c53)
    also have "\<dots> = 2 powi 52 * 2 powi (E - 51)" by (fact sh)
    also have "\<dots> = of_int (2 ^ 52) * 2 powi (E - 51)" by (simp only: c52)
    finally have r': "round_double q = of_int (2 ^ 52) * 2 powi (E - 51)" .
    have m': "\<bar>2 ^ 52 :: int\<bar> < 2 ^ 53" by simp
    have e': "- 1074 \<le> E - 51" using E by simp
    show ?thesis unfolding is_double_def
      using r' m' e' by (intro exI [of _ "2 ^ 52"] exI [of _ "E - 51"] conjI)
  next
    case False
    have "m < 2 ^ 53" using False hi by (rule order.not_eq_order_implies_strict)
    then have m': "\<bar>m\<bar> < 2 ^ 53" using lo by (simp only: abs_of_nonneg)
    have e': "- 1074 \<le> E - 52" using E by simp
    show ?thesis unfolding is_double_def
      using r m' e' by (intro exI [of _ m] exI [of _ "E - 52"] conjI)
  qed
qed

lemma round_double_le_bound:
  assumes "is_double d" and "0 \<le> q" and "q \<le> d"
  shows "round_double q \<le> d"
proof (cases "q = 0")
  case True
  with assms show ?thesis by (simp add: round_double_zero)
next
  case False
  with assms have "0 < q" by simp
  then show ?thesis using assms by (intro round_double_le_double)
qed

lemma round_double_ge_bound:
  assumes "is_double d" and "0 \<le> d" and "d \<le> q"
  shows "d \<le> round_double q"
proof (cases "d = 0")
  case True
  with assms show ?thesis by (simp add: round_double_nonneg)
next
  case False
  with assms have "0 < d" by simp
  then show ?thesis using assms by (intro round_double_ge_double)
qed

lemma round_double_unit:
  assumes "0 \<le> q" and "q \<le> 1"
  shows "0 \<le> round_double q" and "round_double q \<le> 1" and "is_double (round_double q)"
  using assms by (simp_all add: round_double_nonneg round_double_le_bound is_double_1 is_double_round)

lemma py_truediv_unit:
  assumes "0 \<le> a" and "a \<le> b" and "b \<noteq> 0"
  shows "py_truediv a b = Inr (round_double (of_int a / of_int b))"
    and "0 \<le> round_double (of_int a / of_int b)"
    and "round_double (of_int a / of_int b) \<le> 1"
    and "is_double (round_double (of_int a / of_int b))"
proof -
  have q: "(0::rat) \<le> of_int a / of_int b" "(of_int a :: rat) / of_int b \<le> 1"
    using assms by (simp_all add: divide_le_eq_1)
  note r = round_double_unit [OF q]
  show "0 \<le> round_double (of_int a / of_int b)" "round_double (of_int a / of_int b) \<le> 1"
    "is_double (round_double (of_int a / of_int b))" by (rule r)+
  have "\<bar>round_double (of_int a / of_int b)\<bar> < dbl_overflow"
    using r(1,2) by (simp add: dbl_overflow_def)
  then show "py_truediv a b = Inr (round_double (of_int a / of_int b))"
    using assms(3) by (simp add: py_truediv_def Let_def)
qed

text \<open>fl_add of two nonnegative doubles is zero only if both are.\<close>

lemma fl_add_eq_0_iff:
  assumes "is_double p" "is_double r" "0 \<le> p" "0 \<le> r"
  shows "fl_add p r = 0 \<longleftrightarrow> p = 0 \<and> r = 0"
proof
  assume z: "fl_add p r = 0"
  have "p \<le> round_double (p + r)" using assms by (intro round_double_ge_bound) simp_all
  moreover have "r \<le> round_double (p + r)" using assms by (intro round_double_ge_bound) simp_all
  ultimately show "p = 0 \<and> r = 0" using z assms(3,4) by (simp add: fl_add_def)
next
  assume "p = 0 \<and> r = 0"
  then show "fl_add p r = 0" by (simp add: fl_add_def round_double_zero)
qed

lemma harmonic_range:
  assumes "is_double p" "is_double r" "0 \<le> p" "0 \<le> r" "p \<le> 1" "r \<le> 1"
  shows "0 \<le> fl_mul p r \<and> fl_mul p r \<le> 1"
    and "0 \<le> fl_mul 2 (fl_mul p r) \<and> fl_mul 2 (fl_mul p r) \<le> 2"
    and "0 \<le> fl_add p r \<and> fl_add p r \<le> 2"
    and "\<exists>f. harmonic p r = Inr f \<and> 0 \<le> f \<and> f \<le> 2"
proof -
  have pr: "0 \<le> p * r" "p * r \<le> p" "p * r \<le> 1"
    using assms(3-6) by (simp_all add: mult_left_le mult_le_one)
  have x1: "0 \<le> fl_mul p r" "fl_mul p r \<le> p" "fl_mul p r \<le> 1"
    unfolding fl_mul_def using pr assms(1)
    by (simp_all add: round_double_nonneg round_double_le_bound is_double_1)
  show "0 \<le> fl_mul p r \<and> fl_mul p r \<le> 1" using x1 by simp
  have x2: "0 \<le> fl_mul 2 (fl_mul p r)" "fl_mul 2 (fl_mul p r) \<le> 2 * p"
    "fl_mul 2 (fl_mul p r) \<le> 2"
    unfolding fl_mul_def [of 2] using x1 assms(1)
    by (simp_all add: round_double_nonneg round_double_le_bound is_double_2 is_double_twice)
  show "0 \<le> fl_mul 2 (fl_mul p r) \<and> fl_mul 2 (fl_mul p r) \<le> 2" using x2 by simp
  have x3: "0 \<le> fl_add p r" "p \<le> fl_add p r" "fl_add p r \<le> 2"
    unfolding fl_add_def using assms
    by (simp_all add: round_double_nonneg round_double_le_bound round_double_ge_bound is_double_2)
  show "0 \<le> fl_add p r \<and> fl_add p r \<le> 2" using x3 by simp
  show "\<exists>f. harmonic p r = Inr f \<and> 0 \<le> f \<and> f \<le> 2"
  proof (cases "fl_add p r = 0")
    case True
    then show ?thesis by (simp add: harmonic_def)
  next
    case False
    with x3 have pos: "0 < fl_add p r" by simp
    have "fl_mul 2 (fl_mul p r) \<le> 2 * fl_add p r" using x2(2) x3(2) by simp
    then have q: "fl_mul 2 (fl_mul p r) / fl_add p r \<le> 2"
      using pos by (simp add: pos_divide_le_eq)
    have q0: "0 \<le> fl_mul 2 (fl_mul p r) / fl_add p r" using x2(1) x3(1) by simp
    show ?thesis using False q q0
      by (simp add: harmonic_def fl_div_def round_double_nonneg round_double_le_bound is_double_2)
  qed
qed

lemma f1_of_range:
  assumes "0 \<le> correct" and "correct \<le> n_unique" and "correct \<le> n_total"
  shows "\<exists>p r f. precision_of correct n_unique = Inr p \<and> recall_of correct n_total = Inr r \<and>
           f1_of correct n_unique n_total = Inr f \<and>
           is_double p \<and> is_double r \<and>
           0 \<le> p \<and> p \<le> 1 \<and> 0 \<le> r \<and> r \<le> 1 \<and>
           0 \<le> fl_mul p r \<and> fl_mul p r \<le> 1 \<and>
           0 \<le> fl_mul 2 (fl_mul p r) \<and> fl_mul 2 (fl_mul p r) \<le> 2 \<and>
           0 \<le> fl_add p r \<and> fl_add p r \<le> 2 \<and>
           0 \<le> f \<and> f \<le> 2"
proof -
  have "\<exists>p. precision_of correct n_unique = Inr p \<and> is_double p \<and> 0 \<le> p \<and> p \<le> 1"
    using py_truediv_unit [OF assms(1,2)]
    by (cases "n_unique = 0") (simp_all add: precision_of_def is_double_0)
  then obtain p where p: "precision_of correct n_unique = Inr p" "is_double p" "0 \<le> p" "p \<le> 1"
    by blast
  have "\<exists>r. recall_of correct n_total = Inr r \<and> is_double r \<and> 0 \<le> r \<and> r \<le> 1"
    using py_truediv_unit [OF assms(1,3)]
    by (cases "n_total = 0") (simp_all add: recall_of_def is_double_0)
  then obtain r where r: "recall_of correct n_total = Inr r" "is_double r" "0 \<le> r" "r \<le> 1"
    by blast
  note h = harmonic_range [OF p(2) r(2) p(3) r(3) p(4) r(4)]
  from h(4) obtain f where f: "harmonic p r = Inr f" "0 \<le> f" "f \<le> 2" by blast
  have "f1_of correct n_unique n_total = Inr f" by (simp add: f1_of_def p(1) r(1) f(1))
  with p r h(1-3) f(2,3) show ?thesis by blast
qed


section \<open>The state after \<open>train\<close>\<close>

lemma repeated_le_distinct: "repeated_transitions tokens n \<le> card (set (transitions tokens n))"
  unfolding repeated_transitions_def by (intro card_mono) auto

lemma build_counts:
  assumes "1 \<le> n"
  shows "\<exists>m. build tokens n = Inr (m, tally (transitions tokens (nat n)))"
proof -
  obtain m tc where f: "fold record_transition (transitions tokens (nat n)) ([], []) = (m, tc)"
    by (cases "fold record_transition (transitions tokens (nat n)) ([], [])")
  have "tc = tally (transitions tokens (nat n))"
    using counts_tally [of "transitions tokens (nat n)"] by (simp add: f)
  then show ?thesis using build_transitions [OF assms, of tokens] by (simp add: f)
qed

lemma train_result:
  assumes "1 \<le> n"
  shows "\<exists>m f1. build (py_split corpus) n = Inr (m, tally (transitions (py_split corpus) (nat n))) \<and>
           f1_of (int (repeated_transitions (py_split corpus) (nat n)))
                 (int (card (set (transitions (py_split corpus) (nat n)))))
                 (int (length (transitions (py_split corpus) (nat n)))) = Inr f1 \<and>
           train corpus n elapsed self =
             Inr (self\<lparr> model := m,
                       vocab_size := int (card (set (py_split corpus))),
                       unique_transitions := int (card (set (transitions (py_split corpus) (nat n)))),
                       total_transitions := int (length (transitions (py_split corpus) (nat n))),
                       f1_score := f1,
                       training_time := elapsed,
                       trained := True \<rparr>)"
proof -
  define ps where "ps = transitions (py_split corpus) (nat n)"
  from build_counts [OF assms, of "py_split corpus"]
  obtain m where b: "build (py_split corpus) n = Inr (m, tally ps)" unfolding ps_def by blast
  have c: "length (filter (\<lambda>c. 1 < c) (dict_values (tally ps))) = repeated_transitions (py_split corpus) (nat n)"
    unfolding dict_values_def tally_filter repeated_transitions_def ps_def by simp
  have u: "length (tally ps) = card (set ps)" by (rule tally_length)
  have t: "sum_list (dict_values (tally ps)) = int (length ps)"
    unfolding dict_values_def by (rule tally_sum)
  have r1: "repeated_transitions (py_split corpus) (nat n) \<le> card (set ps)"
    unfolding ps_def by (rule repeated_le_distinct)
  have r2: "card (set ps) \<le> length ps" by (rule card_length)
  have "\<exists>p r f1. precision_of (int (repeated_transitions (py_split corpus) (nat n))) (int (card (set ps))) = Inr p \<and>
      recall_of (int (repeated_transitions (py_split corpus) (nat n))) (int (length ps)) = Inr r \<and>
      f1_of (int (repeated_transitions (py_split corpus) (nat n))) (int (card (set ps))) (int (length ps)) = Inr f1"
    using f1_of_range [of "int (repeated_transitions (py_split corpus) (nat n))" "int (card (set ps))" "int (length ps)"]
      r1 r2 by fastforce
  then obtain f1 where f: "f1_of (int (repeated_transitions (py_split corpus) (nat n)))
      (int (card (set ps))) (int (length ps)) = Inr f1" by blast
  have "train corpus n elapsed self =
      Inr (self\<lparr> model := m, vocab_size := int (card (set (py_split corpus))),
                unique_transitions := int (card (set ps)), total_transitions := int (length ps),
                f1_score := f1, training_time := elapsed, trained := True \<rparr>)"
    by (simp add: train_def Let_def b c u t f)
  with b f show ?thesis unfolding ps_def by blast
qed

section \<open>Properties of the predictor\<close>

subsection \<open>Ranking of the followers\<close>

lemma py_slice_last: "words \<noteq> [] \<Longrightarrow> py_slice words (Some (- 1)) None = [last words]"
proof -
  assume w: "words \<noteq> []"
  then have l: "0 < length words" by simp
  have b: "slice_bound (int (length words)) (- 1) = length words - 1"
    using l by (simp add: slice_bound_def min_def max_def)
  have "drop (length words - 1) words = [last words]"
    using w by (induction words) (auto simp: drop_Cons' )
  then show ?thesis using l by (simp add: py_slice_def b)
qed

lemma py_slice_prefix: "0 \<le> k \<Longrightarrow> py_slice xs None (Some k) = take (nat k) xs"
  by (auto simp: py_slice_def slice_bound_def min_def max_def Let_def)

lemma ranked_followers:
  fixes followers :: "pystr list"
  defines "ranked \<equiv> map fst (sort_key (\<lambda>x. (- snd x, fst x)) (tally followers))"
  shows "distinct ranked" and "set ranked = set followers"
    and "sorted_wrt (\<lambda>a b. count_list followers b < count_list followers a \<or>
           (count_list followers a = count_list followers b \<and> a < b)) ranked"
proof -
  define sw where "sw = sort_key (\<lambda>x. (- snd x, fst x)) (tally followers)"
  have r: "ranked = map fst sw" by (simp add: ranked_def sw_def)
  have s: "set sw = set (tally followers)" by (simp add: sw_def)
  have dk: "distinct (map fst (tally followers))" using tally_keys by blast
  then have "distinct (tally followers)" and "inj_on fst (set (tally followers))"
    by (simp_all add: distinct_map)
  then have "distinct sw" and "inj_on fst (set sw)" by (simp_all add: sw_def)
  then show d: "distinct ranked" by (simp add: r distinct_map)
  show "set ranked = set followers"
    using tally_keys [of followers] by (simp add: r s)
  have cnt: "snd x = int (count_list followers (fst x))" if "x \<in> set sw" for x
    using that by (auto simp: s tally_set)
  have so: "sorted (map (\<lambda>x. (- snd x, fst x)) sw)" unfolding sw_def by (rule sorted_sort_key)
  have "count_list followers (fst (sw ! j)) < count_list followers (fst (sw ! i)) \<or>
        (count_list followers (fst (sw ! i)) = count_list followers (fst (sw ! j)) \<and>
         fst (sw ! i) < fst (sw ! j))" if ij: "i < j" "j < length sw" for i j
  proof -
    from ij have xi: "sw ! i \<in> set sw" and xj: "sw ! j \<in> set sw" by simp_all
    from so ij have le: "(- snd (sw ! i), fst (sw ! i)) \<le> (- snd (sw ! j), fst (sw ! j))"
      by (simp add: sorted_iff_nth_mono)
    have ne: "fst (sw ! i) \<noteq> fst (sw ! j)"
      using d ij unfolding r by (auto simp: distinct_conv_nth)
    from le ne show ?thesis by (auto simp: cnt [OF xi] cnt [OF xj])
  qed
  then have "sorted_wrt (\<lambda>x y. count_list followers (fst y) < count_list followers (fst x) \<or>
           (count_list followers (fst x) = count_list followers (fst y) \<and> fst x < fst y)) sw"
    by (simp only: sorted_wrt_iff_nth_less) blast
  then show "sorted_wrt (\<lambda>a b. count_list followers b < count_list followers a \<or>
           (count_list followers a = count_list followers b \<and> a < b)) ranked"
    by (simp only: r sorted_wrt_map)
qed

text \<open>
  C1. For a trained predictor, a prefix with at least one token whose context (its last
  token) is in the index with a non-empty follower sequence, and \<open>top_k \<ge> 1\<close>:
  \<open>predict_next\<close> returns the first \<open>top_k\<close> entries (all of them if there are fewer)
  of the list of the distinct followers of that context in which a follower with a
  higher count comes first and, among followers of equal count, the
  lexicographically smaller one.
\<close>

theorem predict_next_ranking:
  assumes "trained self"
    and "py_split (py_strip prefix) \<noteq> []"
    and "map_of (model self) [last (py_split (py_strip prefix))] = Some followers"
    and "followers \<noteq> []"
    and "1 \<le> top_k"
  shows "\<exists>ranked. fst (predict_next prefix top_k self) = take (nat top_k) ranked \<and>
           distinct ranked \<and> set ranked = set followers \<and>
           sorted_wrt (\<lambda>a b. count_list followers b < count_list followers a \<or>
             (count_list followers a = count_list followers b \<and> a < b)) ranked"
proof -
  define ranked where "ranked = map fst (sort_key (\<lambda>x. (- snd x, fst x)) (tally followers))"
  have k: "py_slice (py_split (py_strip prefix)) (Some (- 1)) None = [last (py_split (py_strip prefix))]"
    using assms(2) by (rule py_slice_last)
  have g: "dict_get (model self) [last (py_split (py_strip prefix))] [] = followers"
    by (simp add: dict_get_def assms(3))
  have t: "0 \<le> top_k" using assms(5) by simp
  have "fst (predict_next prefix top_k self) = take (nat top_k) ranked"
    using assms(1,2,4)
    by (simp add: predict_next_def Let_def k g py_slice_prefix [OF t] ranked_def tally_def take_map)
  with ranked_followers [of followers] show ?thesis unfolding ranked_def by blast
qed

theorem predict_next_ranking_witness:
  "fst (predict_next (S ''see the'') 1
          (init\<lparr>model := [([S ''the''], [S ''b'', S ''a'', S ''b'', S ''a''])],
                trained := True\<rparr>)) = [S ''a''] \<and>
   (\<exists>ranked. fst (predict_next (S ''see the'') 1
                 (init\<lparr>model := [([S ''the''], [S ''b'', S ''a'', S ''b'', S ''a''])],
                       trained := True\<rparr>)) = take (nat 1) ranked \<and>
           distinct ranked \<and> set ranked = set [S ''b'', S ''a'', S ''b'', S ''a''] \<and>
           sorted_wrt (\<lambda>a b. count_list [S ''b'', S ''a'', S ''b'', S ''a''] b
                                < count_list [S ''b'', S ''a'', S ''b'', S ''a''] a \<or>
             (count_list [S ''b'', S ''a'', S ''b'', S ''a''] a
                = count_list [S ''b'', S ''a'', S ''b'', S ''a''] b \<and> a < b)) ranked)"
proof (rule conjI)
  have w: "py_split (py_strip (S ''see the'')) = [S ''see'', S ''the'']"
    by (simp add: py_split_def py_strip_def S_def isspace_def)
  show "fst (predict_next (S ''see the'') 1
          (init\<lparr>model := [([S ''the''], [S ''b'', S ''a'', S ''b'', S ''a''])],
                trained := True\<rparr>)) = [S ''a'']"
    unfolding predict_next_def w
    by (simp add: py_slice_def slice_bound_def dict_get_def S_def Let_def)
  show "\<exists>ranked. fst (predict_next (S ''see the'') 1
                 (init\<lparr>model := [([S ''the''], [S ''b'', S ''a'', S ''b'', S ''a''])],
                       trained := True\<rparr>)) = take (nat 1) ranked \<and>
           distinct ranked \<and> set ranked = set [S ''b'', S ''a'', S ''b'', S ''a''] \<and>
           sorted_wrt (\<lambda>a b. count_list [S ''b'', S ''a'', S ''b'', S ''a''] b
                                < count_list [S ''b'', S ''a'', S ''b'', S ''a''] a \<or>
             (count_list [S ''b'', S ''a'', S ''b'', S ''a''] a
                = count_list [S ''b'', S ''a'', S ''b'', S ''a''] b \<and> a < b)) ranked"
  proof (rule predict_next_ranking)
    show "trained (init\<lparr>model := [([S ''the''], [S ''b'', S ''a'', S ''b'', S ''a''])],
                         trained := True\<rparr>)" by simp
    show "py_split (py_strip (S ''see the'')) \<noteq> []" by (simp add: w)
    show "map_of (model (init\<lparr>model := [([S ''the''], [S ''b'', S ''a'', S ''b'', S ''a''])],
                         trained := True\<rparr>)) [last (py_split (py_strip (S ''see the'')))] =
            Some [S ''b'', S ''a'', S ''b'', S ''a'']" by (simp add: w)
    show "[S ''b'', S ''a'', S ''b'', S ''a''] \<noteq> []" by simp
    show "1 \<le> (1::int)" by simp
  qed
qed

subsection \<open>The scenario corpus\<close>

lemma split_scenario:
  "py_split (S ''the cat sat on the mat the cat ran'') =
     [S ''the'', S ''cat'', S ''sat'', S ''on'', S ''the'', S ''mat'', S ''the'', S ''cat'', S ''ran'']"
  by (simp add: py_split_def S_def isspace_def)

lemma upt_8: "[0..<8] = [0, 1, 2, 3, 4, 5, 6, 7::nat]"
  by code_simp

lemma build_scenario:
  "build [S ''the'', S ''cat'', S ''sat'', S ''on'', S ''the'', S ''mat'', S ''the'', S ''cat'', S ''ran''] 2 =
     Inr ([([S ''the''], [S ''cat'', S ''mat'', S ''cat'']),
           ([S ''cat''], [S ''sat'', S ''ran'']),
           ([S ''sat''], [S ''on'']),
           ([S ''on''], [S ''the'']),
           ([S ''mat''], [S ''the''])],
          [(([S ''the''], S ''cat''), 2),
           (([S ''cat''], S ''sat''), 1),
           (([S ''sat''], S ''on''), 1),
           (([S ''on''], S ''the''), 1),
           (([S ''the''], S ''mat''), 1),
           (([S ''mat''], S ''the''), 1),
           (([S ''cat''], S ''ran''), 1)])"
  by (simp add: build_def py_range_def upt_8 py_slice_def slice_bound_def py_getitem_def Let_def S_def)

lemma vocab_scenario:
  "card (set [S ''the'', S ''cat'', S ''sat'', S ''on'', S ''the'', S ''mat'', S ''the'', S ''cat'', S ''ran'']) = 6"
  by (simp add: S_def card_insert_if)

lemma predict_scenario:
  assumes "trained s" and "model s = [([S ''the''], [S ''cat'', S ''mat'', S ''cat'']),
           ([S ''cat''], [S ''sat'', S ''ran'']),
           ([S ''sat''], [S ''on'']),
           ([S ''on''], [S ''the'']),
           ([S ''mat''], [S ''the''])]"
  shows "fst (predict_next (S ''the'') 2 s) = [S ''cat'', S ''mat'']"
proof -
  have w: "py_split (py_strip (S ''the'')) = [S ''the'']"
    by (simp add: py_split_def py_strip_def S_def isspace_def)
  show ?thesis unfolding predict_next_def w using assms
    by (simp add: py_slice_def slice_bound_def dict_get_def S_def Let_def)
qed

lemma train_scenario:
  "\<exists>f1. train (S ''the cat sat on the mat the cat ran'') 2 elapsed self =
     Inr (self\<lparr> model := [([S ''the''], [S ''cat'', S ''mat'', S ''cat'']),
                          ([S ''cat''], [S ''sat'', S ''ran'']),
                          ([S ''sat''], [S ''on'']),
                          ([S ''on''], [S ''the'']),
                          ([S ''mat''], [S ''the''])],
               vocab_size := 6, unique_transitions := 7, total_transitions := 8,
               f1_score := f1, training_time := elapsed, trained := True \<rparr>)"
proof -
  define corpus where "corpus = S ''the cat sat on the mat the cat ran''"
  define ps where "ps = transitions (py_split corpus) (nat 2)"
  from train_result [of 2 corpus elapsed self]
  obtain m f1 where b: "build (py_split corpus) 2 = Inr (m, tally ps)"
    and t: "train corpus 2 elapsed self =
      Inr (self\<lparr> model := m, vocab_size := int (card (set (py_split corpus))),
                unique_transitions := int (card (set ps)), total_transitions := int (length ps),
                f1_score := f1, training_time := elapsed, trained := True \<rparr>)"
    unfolding ps_def by auto
  from b have m: "m = [([S ''the''], [S ''cat'', S ''mat'', S ''cat'']),
                          ([S ''cat''], [S ''sat'', S ''ran'']),
                          ([S ''sat''], [S ''on'']),
                          ([S ''on''], [S ''the'']),
                          ([S ''mat''], [S ''the''])]"
    and tc: "tally ps = [(([S ''the''], S ''cat''), 2),
           (([S ''cat''], S ''sat''), 1),
           (([S ''sat''], S ''on''), 1),
           (([S ''on''], S ''the''), 1),
           (([S ''the''], S ''mat''), 1),
           (([S ''mat''], S ''the''), 1),
           (([S ''cat''], S ''ran''), 1)]"
    unfolding corpus_def split_scenario build_scenario by simp_all
  have u: "card (set ps) = 7" using tally_length [of ps] by (simp add: tc)
  have l: "length ps = 8" unfolding ps_def length_transitions corpus_def split_scenario by simp
  have v: "card (set (py_split corpus)) = 6"
    unfolding corpus_def split_scenario by (rule vocab_scenario)
  from t [unfolded m u l v] show ?thesis unfolding corpus_def by auto
qed

text \<open>
  C2. As stated the scenario fails in its last number: the corpus
  "the cat sat on the mat the cat ran" has 7 distinct transitions, not 6.
\<close>

theorem scenario_counterexample:
  "map_sum id unique_transitions (train (S ''the cat sat on the mat the cat ran'') 2 0 init) = Inr 7 \<and>
   map_sum id unique_transitions (train (S ''the cat sat on the mat the cat ran'') 2 0 init) \<noteq> Inr 6"
  using train_scenario [of 0 init] by auto

text \<open>
  C2, amended. After \<open>train\<close> on "the cat sat on the mat the cat ran" with \<open>n = 2\<close>:
  the context \<open>("the",)\<close> has the followers \<open>[cat, mat, cat]\<close> and the counts
  \<open>{cat: 2, mat: 1}\<close>; \<open>predict_next("the", top_k=2)\<close> returns \<open>["cat", "mat"]\<close>;
  \<open>vocab_size = 6\<close>, \<open>total_transitions = 8\<close> and \<open>unique_transitions = 7\<close>.
\<close>

theorem scenario_corpus:
  "\<exists>s tc. train (S ''the cat sat on the mat the cat ran'') 2 elapsed self = Inr s \<and>
     build (py_split (S ''the cat sat on the mat the cat ran'')) 2 = Inr (model s, tc) \<and>
     dict_get (model s) [S ''the''] [] = [S ''cat'', S ''mat'', S ''cat''] \<and>
     filter (\<lambda>p. fst (fst p) = [S ''the'']) tc =
       [(([S ''the''], S ''cat''), 2), (([S ''the''], S ''mat''), 1)] \<and>
     fst (predict_next (S ''the'') 2 s) = [S ''cat'', S ''mat''] \<and>
     vocab_size s = 6 \<and> total_transitions s = 8 \<and> unique_transitions s = 7"
proof -
  from train_scenario [of elapsed self]
  obtain s where t: "train (S ''the cat sat on the mat the cat ran'') 2 elapsed self = Inr s"
    and tr: "trained s"
    and m: "model s = [([S ''the''], [S ''cat'', S ''mat'', S ''cat'']),
                          ([S ''cat''], [S ''sat'', S ''ran'']),
                          ([S ''sat''], [S ''on'']),
                          ([S ''on''], [S ''the'']),
                          ([S ''mat''], [S ''the''])]"
    and n: "vocab_size s = 6" "total_transitions s = 8" "unique_transitions s = 7"
    by auto
  have g: "dict_get (model s) [S ''the''] [] = [S ''cat'', S ''mat'', S ''cat'']"
    by (simp add: m dict_get_def)
  have f: "filter (\<lambda>p. fst (fst p) = [S ''the''])
       [(([S ''the''], S ''cat''), 2),
           (([S ''cat''], S ''sat''), 1),
           (([S ''sat''], S ''on''), 1),
           (([S ''on''], S ''the''), 1),
           (([S ''the''], S ''mat''), 1),
           (([S ''mat''], S ''the''), 1),
           (([S ''cat''], S ''ran''), 1 :: int)] =
       [(([S ''the''], S ''cat''), 2), (([S ''the''], S ''mat''), 1)]"
    by (simp add: S_def)
  show ?thesis
    unfolding split_scenario build_scenario
    using t g f predict_scenario [OF tr m] n by (simp add: m)
qed

subsection \<open>The lookup key and the order of the model\<close>

lemma split_abc: "py_split (S ''a b c'') = [S ''a'', S ''b'', S ''c'']"
  by (simp add: py_split_def S_def isspace_def)

lemma split_ab: "py_split (py_strip (S ''a b'')) = [S ''a'', S ''b'']"
  by (simp add: py_split_def py_strip_def S_def isspace_def)

lemma f1_of_zero: "f1_of 0 u t = Inr 0"
  by (simp add: f1_of_def precision_of_def recall_of_def harmonic_def py_truediv_def
      round_double_zero dbl_overflow_def fl_add_def)

text \<open>
  The contexts in the index are those of the transitions. For an order of 3 or more
  they have two tokens or more, so the one-token key of \<open>predict_next\<close> is never
  among them.
\<close>

lemma dd_apply_key_set: "fst ` set (dd_apply d f k m) = insert k (fst ` set m)"
proof -
  have "fst ` set (dd_apply d f k m) = set (map fst (dd_apply d f k m))" by simp
  also have "\<dots> = insert k (fst ` set m)"
    by (cases "k \<in> fst ` set m") (simp_all only: dd_apply_keys if_True if_False set_map set_append list.set insert_absorb Un_insert_right Un_empty_right)
  finally show ?thesis .
qed

lemma fold_record_keys:
  "fst ` set (fst (fold record_transition ps mc)) = fst ` set (fst mc) \<union> fst ` set ps"
proof (induction ps arbitrary: mc)
  case Nil
  show ?case by simp
next
  case (Cons p ps)
  have "fst ` set (fst (fold record_transition (p # ps) mc)) =
      fst ` set (fst (record_transition p mc)) \<union> fst ` set ps"
    by (simp add: Cons.IH)
  also have "fst ` set (fst (record_transition p mc)) = insert (fst p) (fst ` set (fst mc))"
    by (simp add: record_transition_def dd_apply_key_set)
  finally show ?case by auto
qed

lemma transitions_key_length:
  "p \<in> set (transitions tokens n) \<Longrightarrow> 0 < n \<Longrightarrow> length (fst p) = n - 1"
  by (auto simp: transitions_def)

lemma higher_order_never_predicts:
  assumes "3 \<le> n" and "train corpus n elapsed self = Inr s"
  shows "fst (predict_next prefix top_k s) =
           (if py_split (py_strip prefix) = [] then [] else [no_predictions_msg])"
proof -
  from assms(1) have n: "1 \<le> n" by simp
  from build_transitions [OF n, of "py_split corpus"] train_result [OF n, of corpus elapsed self] assms(2)
  have tr: "trained s"
    and m: "model s = fst (fold record_transition (transitions (py_split corpus) (nat n)) ([], []))"
    by auto
  have k: "length key = nat n - 1" if "key \<in> fst ` set (model s)" for key
    using that assms(1) unfolding m fold_record_keys
    by (auto dest: transitions_key_length)
  have "map_of (model s) [w] = None" for w
  proof (rule ccontr)
    assume "map_of (model s) [w] \<noteq> None"
    then have "[w] \<in> fst ` set (model s)" by (simp add: map_of_eq_None_iff)
    from k [OF this] assms(1) show False by simp
  qed
  then have g: "dict_get (model s) [w] [] = []" for w by (simp add: dict_get_def)
  show ?thesis
  proof (cases "py_split (py_strip prefix) = []")
    case True
    then show ?thesis using tr by (simp add: predict_next_def)
  next
    case False
    then show ?thesis using tr
      by (simp add: predict_next_def Let_def py_slice_last g)
  qed
qed

text \<open>
  C3. The claim: after training with order \<open>n\<close>, \<open>predict_next\<close> looks up the last
  \<open>n - 1\<close> tokens of the prefix. The code takes \<open>words[-1:]\<close> whatever \<open>n\<close> was: after
  training on "a b c" with \<open>n = 3\<close> the index holds the context \<open>("a", "b")\<close> with the
  follower "c", the last two tokens of the prefix "a b" are that context, and
  \<open>predict_next\<close> still finds no candidates.
\<close>

theorem trigram_lookup_misses:
  "\<exists>s. train (S ''a b c'') 3 0 init = Inr s \<and>
       py_slice (py_split (py_strip (S ''a b''))) (Some (- 2)) None = [S ''a'', S ''b''] \<and>
       dict_get (model s) [S ''a'', S ''b''] [] = [S ''c''] \<and>
       fst (predict_next (S ''a b'') 3 s) = [no_predictions_msg]"
proof -
  have b: "build [S ''a'', S ''b'', S ''c''] 3 = Inr ([([S ''a'', S ''b''], [S ''c''])], [(([S ''a'', S ''b''], S ''c''), 1)])"
    by (simp add: build_def py_range_def py_slice_def slice_bound_def py_getitem_def Let_def)
  have t: "train (S ''a b c'') 3 0 init =
      Inr (init\<lparr>model := [([S ''a'', S ''b''], [S ''c''])], vocab_size := int (card {S ''a'', S ''b'', S ''c''}),
        unique_transitions := 1, total_transitions := 1, f1_score := 0, training_time := 0, trained := True\<rparr>)"
    by (simp add: train_def split_abc b dict_values_def f1_of_zero)
  have k: "py_slice [S ''a'', S ''b''] (Some (- 2)) None = [S ''a'', S ''b'']"
    by (simp add: py_slice_def slice_bound_def)
  have p: "fst (predict_next (S ''a b'') 3 (init\<lparr>model := [([S ''a'', S ''b''], [S ''c''])], vocab_size := int (card {S ''a'', S ''b'', S ''c''}),
        unique_transitions := 1, total_transitions := 1, f1_score := 0, training_time := 0, trained := True\<rparr>)) = [no_predictions_msg]"
    unfolding predict_next_def split_ab
    by (simp add: py_slice_def slice_bound_def dict_get_def S_def Let_def)
  show ?thesis unfolding t split_ab using k p by (simp add: dict_get_def)
qed

subsection \<open>Transition totals\<close>

text \<open>
  C4. For every corpus and \<open>n \<ge> 2\<close>, \<open>train\<close> returns, the values of the transition
  count table sum to \<open>total_transitions\<close>, and both are
  \<open>max(0, token_count - n + 1)\<close>.
\<close>

theorem total_transitions_count:
  assumes "2 \<le> n"
  shows "\<exists>s m tc. train corpus n elapsed self = Inr s \<and>
           build (py_split corpus) n = Inr (m, tc) \<and>
           sum_list (dict_values tc) = total_transitions s \<and>
           total_transitions s = max 0 (int (length (py_split corpus)) - n + 1)"
proof -
  define ps where "ps = transitions (py_split corpus) (nat n)"
  from assms have n: "1 \<le> n" by simp
  from train_result [OF n, of corpus elapsed self]
  obtain m f1 where b: "build (py_split corpus) n = Inr (m, tally ps)"
    and t: "train corpus n elapsed self =
      Inr (self\<lparr> model := m, vocab_size := int (card (set (py_split corpus))),
                unique_transitions := int (card (set ps)), total_transitions := int (length ps),
                f1_score := f1, training_time := elapsed, trained := True \<rparr>)"
    unfolding ps_def by blast
  have s: "sum_list (dict_values (tally ps)) = int (length ps)"
    unfolding dict_values_def by (rule tally_sum)
  have l: "int (length ps) = max 0 (int (length (py_split corpus)) - n + 1)"
    using assms unfolding ps_def length_transitions by linarith
  show ?thesis using b t s l by simp
qed

theorem total_transitions_count_witness:
  "\<exists>s m tc. train (S ''a b c'') 2 0 init = Inr s \<and>
     build (py_split (S ''a b c'')) 2 = Inr (m, tc) \<and>
     sum_list (dict_values tc) = total_transitions s \<and> total_transitions s = 2"
  using total_transitions_count [of 2 "S ''a b c''" 0 init] by (simp add: split_abc)

subsection \<open>The quality score\<close>

lemma harmonic_mean_0: "harmonic_mean 0 0 = 0"
  by (simp add: harmonic_mean_def round_double_zero)

lemma f1_of_formula:
  assumes "0 \<le> c" and "c \<le> u" and "c \<le> t"
  shows "f1_of c u t =
           Inr (let p = (if u = 0 then 0 else round_double (of_int c / of_int u));
                    r = (if t = 0 then 0 else round_double (of_int c / of_int t))
                in if p = 0 \<and> r = 0 then 0 else harmonic_mean p r)"
proof -
  define p where "p = (if u = 0 then 0 else round_double (of_int c / of_int u))"
  define r where "r = (if t = 0 then 0 else round_double (of_int c / of_int t))"
  have pe: "precision_of c u = Inr p" and pd: "is_double p" and p0: "0 \<le> p"
    using py_truediv_unit [OF assms(1,2)]
    by (simp_all add: precision_of_def p_def is_double_0)
  have re: "recall_of c t = Inr r" and rd: "is_double r" and r0: "0 \<le> r"
    using py_truediv_unit [OF assms(1,3)]
    by (simp_all add: recall_of_def r_def is_double_0)
  have z: "fl_add p r = 0 \<longleftrightarrow> p = 0 \<and> r = 0"
    by (rule fl_add_eq_0_iff [OF pd rd p0 r0])
  have h: "harmonic p r = Inr (if p = 0 \<and> r = 0 then 0 else harmonic_mean p r)"
  proof (cases "p = 0 \<and> r = 0")
    case True
    then show ?thesis using z by (simp add: harmonic_def)
  next
    case False
    then have nz: "fl_add p r \<noteq> 0" using z by simp
    have "harmonic p r = fl_div (fl_mul 2 (fl_mul p r)) (fl_add p r)"
      using nz by (simp add: harmonic_def)
    also have "\<dots> = Inr (round_double (fl_mul 2 (fl_mul p r) / fl_add p r))"
      using nz by (simp add: fl_div_def)
    also have "\<dots> = Inr (harmonic_mean p r)"
      by (simp add: harmonic_mean_def fl_mul_def fl_add_def)
    finally show ?thesis using False by (simp add: harmonic_mean_0)
  qed
  show ?thesis
    unfolding f1_of_def pe re Let_def p_def [symmetric] r_def [symmetric] using h by simp
qed

text \<open>
  C5. For every corpus and \<open>n \<ge> 2\<close>, \<open>train\<close> returns and leaves as \<open>f1_score\<close> the
  harmonic mean of \<open>precision\<close> and \<open>recall\<close>, or 0 when both are 0, where
  \<open>correct\<close> is the number of distinct (context, follower) pairs that occur more than
  once, \<open>precision\<close> is \<open>correct / unique_transitions\<close> (0 if \<open>unique_transitions = 0\<close>)
  and \<open>recall\<close> is \<open>correct / total_transitions\<close> (0 if \<open>total_transitions = 0\<close>), all
  in float arithmetic.
\<close>

theorem quality_score:
  assumes "2 \<le> n"
  shows "\<exists>s precision recall.
           train corpus n elapsed self = Inr s \<and>
           precision = (if unique_transitions s = 0 then 0
                        else round_double (of_nat (repeated_transitions (py_split corpus) (nat n)) /
                                           of_int (unique_transitions s))) \<and>
           recall = (if total_transitions s = 0 then 0
                     else round_double (of_nat (repeated_transitions (py_split corpus) (nat n)) /
                                        of_int (total_transitions s))) \<and>
           f1_score s = (if precision = 0 \<and> recall = 0 then 0 else harmonic_mean precision recall)"
proof -
  define ps where "ps = transitions (py_split corpus) (nat n)"
  define c where "c = repeated_transitions (py_split corpus) (nat n)"
  from assms have n: "1 \<le> n" by simp
  from train_result [OF n, of corpus elapsed self]
  obtain m f1 where f: "f1_of (int c) (int (card (set ps))) (int (length ps)) = Inr f1"
    and t: "train corpus n elapsed self =
      Inr (self\<lparr> model := m, vocab_size := int (card (set (py_split corpus))),
                unique_transitions := int (card (set ps)), total_transitions := int (length ps),
                f1_score := f1, training_time := elapsed, trained := True \<rparr>)"
    unfolding ps_def c_def by blast
  have c1: "int c \<le> int (card (set ps))"
    unfolding c_def ps_def using repeated_le_distinct [of "py_split corpus" "nat n"] by simp
  have c2: "int c \<le> int (length ps)" using c1 card_length [of ps] by linarith
  have c0: "0 \<le> int c" by simp
  note g = f1_of_formula [OF c0 c1 c2]
  from f g have f1: "f1 = (let p = (if int (card (set ps)) = 0 then 0
                             else round_double (of_int (int c) / of_int (int (card (set ps)))));
                    r = (if int (length ps) = 0 then 0
                         else round_double (of_int (int c) / of_int (int (length ps))))
                in if p = 0 \<and> r = 0 then 0 else harmonic_mean p r)" by simp
  show ?thesis
    unfolding t c_def [symmetric] by (simp add: f1 Let_def harmonic_mean_0)
qed

lemma round_double_1: "round_double 1 = 1"
  by code_simp

lemma round_double_half: "round_double (1 / 2) = 1 / 2"
  by code_simp

lemma harmonic_mean_example: "harmonic_mean 1 (1 / 2) = 6004799503160661 / 9007199254740992"
  by code_simp

lemma split_aaa: "py_split (S ''a a a'') = [S ''a'', S ''a'', S ''a'']"
  by (simp add: py_split_def S_def isspace_def)

lemma transitions_aaa:
  "transitions [S ''a'', S ''a'', S ''a''] 2 = [([S ''a''], S ''a''), ([S ''a''], S ''a'')]"
  by (simp add: transitions_def upt_rec numeral_2_eq_2)

theorem quality_score_witness:
  "\<exists>s. train (S ''a a a'') 2 0 init = Inr s \<and>
       unique_transitions s = 1 \<and> total_transitions s = 2 \<and>
       repeated_transitions (py_split (S ''a a a'')) 2 = 1 \<and>
       f1_score s = harmonic_mean 1 (1 / 2) \<and>
       f1_score s = 6004799503160661 / 9007199254740992"
proof -
  have q: "(2::int) \<le> 2" by simp
  from quality_score [OF q, of "S ''a a a''" 0 init]
  obtain s where t: "train (S ''a a a'') 2 0 init = Inr s"
    and f: "f1_score s =
      (if (if unique_transitions s = 0 then 0
           else round_double (of_nat (repeated_transitions (py_split (S ''a a a'')) (nat 2)) /
                              of_int (unique_transitions s))) = 0 \<and>
          (if total_transitions s = 0 then 0
           else round_double (of_nat (repeated_transitions (py_split (S ''a a a'')) (nat 2)) /
                              of_int (total_transitions s))) = 0
       then 0
       else harmonic_mean
              (if unique_transitions s = 0 then 0
               else round_double (of_nat (repeated_transitions (py_split (S ''a a a'')) (nat 2)) /
                                  of_int (unique_transitions s)))
              (if total_transitions s = 0 then 0
               else round_double (of_nat (repeated_transitions (py_split (S ''a a a'')) (nat 2)) /
                                  of_int (total_transitions s))))"
    by blast
  from train_result [of 2 "S ''a a a''" 0 init] t
  have u: "unique_transitions s = 1" and l: "total_transitions s = 2"
    by (auto simp: split_aaa transitions_aaa)
  have "{p \<in> set (transitions [S ''a'', S ''a'', S ''a''] 2).
          1 < count_list (transitions [S ''a'', S ''a'', S ''a''] 2) p} = {([S ''a''], S ''a'')}"
    by (auto simp: transitions_aaa)
  then have c: "repeated_transitions (py_split (S ''a a a'')) 2 = 1"
    by (simp add: repeated_transitions_def split_aaa)
  have n2: "nat 2 = 2" by simp
  have h: "f1_score s = harmonic_mean 1 (1 / 2)"
    using f unfolding n2 c u l by (simp add: round_double_1 round_double_half)
  show ?thesis using t u l c h harmonic_mean_example by simp
qed

subsection \<open>The empty corpus\<close>

lemma transitions_short: "length tokens < n \<Longrightarrow> transitions tokens n = []"
  by (simp add: transitions_def)

lemma train_short:
  assumes "1 \<le> n" and "int (length (py_split corpus)) < n"
  shows "\<exists>s. train corpus n elapsed self = Inr s \<and> model s = [] \<and> trained s \<and>
           vocab_size s = int (card (set (py_split corpus))) \<and>
           build (py_split corpus) n = Inr ([], [])"
proof -
  have e: "transitions (py_split corpus) (nat n) = []"
    using assms by (intro transitions_short) linarith
  have b: "build (py_split corpus) n = Inr ([], [])"
    using build_transitions [OF assms(1), of "py_split corpus"] by (simp add: e)
  from train_result [OF assms(1), of corpus elapsed self] b show ?thesis by auto
qed

lemma split_a: "py_split (S ''a'') = [S ''a'']"
  by (simp add: py_split_def S_def isspace_def)

lemma train_empty: "train [] 2 0 init = Inr (init\<lparr>trained := True\<rparr>)"
  by (simp add: train_def py_split_def build_def py_range_def dict_values_def f1_of_def
      precision_of_def recall_of_def harmonic_def fl_add_def round_double_zero init_def)

text \<open>
  C6. As stated (after training on the empty corpus, every \<open>predict_next\<close> call returns
  the "no predictions" message) the claim fails for a prefix without tokens, which
  returns the empty list.
\<close>

theorem empty_prefix_counterexample:
  "train [] 2 0 init = Inr (init\<lparr>trained := True\<rparr>) \<and>
   fst (predict_next [] 3 (init\<lparr>trained := True\<rparr>)) \<noteq> [no_predictions_msg]"
  by (simp add: train_empty predict_next_def py_split_def py_strip_def)

text \<open>
  C6, amended. Training on the empty corpus returns without an exception and leaves the
  predictor trained with \<open>vocab_size = 0\<close> and an empty index; afterwards
  \<open>predict_next\<close> returns the "no predictions" message for every prefix that has at
  least one token and every \<open>top_k\<close>, and the empty list for a prefix without tokens.
\<close>

theorem empty_corpus_predictions:
  assumes "2 \<le> n"
  shows "\<exists>s. train [] n elapsed self = Inr s \<and> trained s \<and> vocab_size s = 0 \<and> model s = [] \<and>
           (\<forall>prefix top_k. fst (predict_next prefix top_k s) =
              (if py_split (py_strip prefix) = [] then [] else [no_predictions_msg]))"
proof -
  have l: "int (length (py_split [])) < n" using assms by (simp add: py_split_def)
  from assms have n: "1 \<le> n" by simp
  from train_short [OF n l, of elapsed self]
  obtain s where t: "train [] n elapsed self = Inr s" and m: "model s = []"
    and tr: "trained s" and v: "vocab_size s = 0" by (auto simp: py_split_def)
  have "fst (predict_next prefix top_k s) =
      (if py_split (py_strip prefix) = [] then [] else [no_predictions_msg])" for prefix top_k
    using tr m by (simp add: predict_next_def Let_def dict_get_def)
  with t tr v m show ?thesis by blast
qed

theorem empty_corpus_predictions_witness:
  "\<exists>s. train [] 2 0 init = Inr s \<and> trained s \<and> vocab_size s = 0 \<and> model s = [] \<and>
     fst (predict_next (S ''a'') 3 s) = [no_predictions_msg] \<and>
     fst (predict_next [] 3 s) = []"
proof -
  from empty_corpus_predictions [of 2 0 init]
  obtain s where t: "train [] 2 0 init = Inr s" "trained s" "vocab_size s = 0" "model s = []"
    and p: "\<And>prefix top_k. fst (predict_next prefix top_k s) =
              (if py_split (py_strip prefix) = [] then [] else [no_predictions_msg])"
    by auto
  have a: "py_split (py_strip (S ''a'')) \<noteq> []"
    by (simp add: py_split_def py_strip_def S_def isspace_def)
  have e: "py_split (py_strip []) = []" by (simp add: py_split_def py_strip_def)
  show ?thesis using t p [of "S ''a''" 3] p [of "[]" 3] a e by auto
qed

subsection \<open>Statistics of an untrained predictor\<close>

lemma replicate_2: "replicate 2 x = [x, x]"
  by (simp add: numeral_2_eq_2)

lemma compression_ratio_trained: "compression_ratio (self\<lparr>trained := b\<rparr>) = compression_ratio self"
  by (simp add: compression_ratio_def)

lemma get_stats_trained: "get_stats (self\<lparr>trained := b\<rparr>) = get_stats self"
  by (simp add: get_stats_def compression_ratio_trained split: sum.splits)

lemma get_stats_init:
  "get_stats init =
     Inr [(S ''file_name'', PyStr []),
          (S ''file_size'', PyStr (S ''0.0 KB'')),
          (S ''training_time'', PyStr (S ''0.00 seconds'')),
          (S ''vocab_size'', PyInt 0),
          (S ''unique_transitions'', PyInt 0),
          (S ''total_transitions'', PyInt 0),
          (S ''f1_score'', PyStr (S ''0.000'')),
          (S ''compression_ratio'', PyStr (S ''N/A''))]"
  by (simp add: get_stats_def compression_ratio_def init_def py_truediv_def round_double_zero
      dbl_overflow_def fmt_fixed_def round_half_even_def digits.simps [of 0] S_def replicate_2)

text \<open>
  C7. As stated (\<open>get_stats\<close> before any \<open>train\<close> call signals "not trained", as a
  value that differs from a normal stats record) the claim fails: \<open>get_stats\<close> on the
  new predictor returns the very dictionary it returns after training on the empty
  corpus.
\<close>

theorem get_stats_untrained_counterexample:
  "\<not> trained init \<and> train [] 2 0 init = Inr (init\<lparr>trained := True\<rparr>) \<and>
   get_stats init = get_stats (init\<lparr>trained := True\<rparr>)"
  by (simp add: train_empty get_stats_trained) (simp add: init_def)

text \<open>
  C7, amended. \<open>get_stats\<close> has no "not trained" signal: its result does not depend on
  \<open>trained\<close>, and before any \<open>train\<close> call it returns the ordinary stats dictionary
  of the initial attributes.
\<close>

theorem get_stats_ignores_trained:
  "get_stats (self\<lparr>trained := b\<rparr>) = get_stats self \<and>
   get_stats init =
     Inr [(S ''file_name'', PyStr []),
          (S ''file_size'', PyStr (S ''0.0 KB'')),
          (S ''training_time'', PyStr (S ''0.00 seconds'')),
          (S ''vocab_size'', PyInt 0),
          (S ''unique_transitions'', PyInt 0),
          (S ''total_transitions'', PyInt 0),
          (S ''f1_score'', PyStr (S ''0.000'')),
          (S ''compression_ratio'', PyStr (S ''N/A''))]"
  by (simp add: get_stats_init get_stats_trained)

subsection \<open>A corpus shorter than the order\<close>

text \<open>
  C8. For every corpus with fewer than \<open>n\<close> tokens (\<open>n \<ge> 2\<close>), \<open>train\<close> returns
  without an exception, and the index and the transition count table it builds are
  empty.
\<close>

theorem short_corpus_empty_index:
  assumes "2 \<le> n" and "int (length (py_split corpus)) < n"
  shows "\<exists>s. train corpus n elapsed self = Inr s \<and> model s = [] \<and>
           build (py_split corpus) n = Inr ([], [])"
proof -
  from assms(1) have "1 \<le> n" by simp
  from train_short [OF this assms(2), of elapsed self] show ?thesis by blast
qed

theorem short_corpus_empty_index_witness:
  "\<exists>s. train (S ''a'') 2 0 init = Inr s \<and> model s = [] \<and>
     build (py_split (S ''a'')) 2 = Inr ([], [])"
  using short_corpus_empty_index [of 2 "S ''a''" 0 init] by (simp add: split_a)

subsection \<open>Training twice\<close>

text \<open>
  C9. For every corpus and \<open>n \<ge> 2\<close>, training twice with the same corpus and \<open>n\<close>
  gives the same index and transition counts, and a predictor that differs from the
  one after the first call in \<open>training_time\<close> at most (so \<open>vocab_size\<close>,
  \<open>unique_transitions\<close>, \<open>total_transitions\<close> and \<open>f1_score\<close> are the same).
\<close>

theorem train_idempotent:
  assumes "2 \<le> n"
  shows "\<exists>s1 s2 tc. train corpus n e1 self = Inr s1 \<and> train corpus n e2 s1 = Inr s2 \<and>
           build (py_split corpus) n = Inr (model s1, tc) \<and>
           build (py_split corpus) n = Inr (model s2, tc) \<and>
           s2 = s1\<lparr>training_time := e2\<rparr>"
proof -
  from assms have n: "1 \<le> n" by simp
  from train_result [OF n, of corpus e1 self]
  obtain m f1 tc s1 where b: "build (py_split corpus) n = Inr (m, tc)"
    and s1: "s1 = self\<lparr> model := m, vocab_size := int (card (set (py_split corpus))),
                unique_transitions := int (card (set (transitions (py_split corpus) (nat n)))),
                total_transitions := int (length (transitions (py_split corpus) (nat n))),
                f1_score := f1, training_time := e1, trained := True \<rparr>"
    and f: "f1_of (int (repeated_transitions (py_split corpus) (nat n)))
                 (int (card (set (transitions (py_split corpus) (nat n)))))
                 (int (length (transitions (py_split corpus) (nat n)))) = Inr f1"
    and t1: "train corpus n e1 self = Inr s1" by blast
  from train_result [OF n, of corpus e2 s1] b f
  have t2: "train corpus n e2 s1 =
      Inr (s1\<lparr> model := m, vocab_size := int (card (set (py_split corpus))),
                unique_transitions := int (card (set (transitions (py_split corpus) (nat n)))),
                total_transitions := int (length (transitions (py_split corpus) (nat n))),
                f1_score := f1, training_time := e2, trained := True \<rparr>)" by auto
  have eq: "s1\<lparr> model := m, vocab_size := int (card (set (py_split corpus))),
                unique_transitions := int (card (set (transitions (py_split corpus) (nat n)))),
                total_transitions := int (length (transitions (py_split corpus) (nat n))),
                f1_score := f1, training_time := e2, trained := True \<rparr> = s1\<lparr>training_time := e2\<rparr>"
    by (simp add: s1)
  have m1: "model s1 = m" by (simp add: s1)
  show ?thesis using t1 t2 b eq m1 by simp
qed

theorem train_idempotent_witness:
  "\<exists>s1 s2 tc. train (S ''a b c'') 2 1 init = Inr s1 \<and> train (S ''a b c'') 2 3 s1 = Inr s2 \<and>
     build (py_split (S ''a b c'')) 2 = Inr (model s1, tc) \<and>
     build (py_split (S ''a b c'')) 2 = Inr (model s2, tc) \<and>
     s2 = s1\<lparr>training_time := 3\<rparr>"
  using train_idempotent [of 2 "S ''a b c''" 1 init 3] by simp

subsection \<open>Prediction does not change the predictor\<close>

text \<open>
  C10. \<open>predict_next\<close> leaves the predictor as it was, for every state (trained or
  not), prefix and \<open>top_k\<close>: the second component of \<open>predict_next\<close> is the object after
  the call. The index is read with \<open>dict.get\<close>, so a missing context is not inserted.
\<close>

theorem predict_next_frame: "snd (predict_next text top_k self) = self"
  by (simp add: predict_next_def Let_def)

end
